theory Spec2Isabelle
  imports Complex_Main
begin

section \<open>Numbers\<close>

text \<open>
  A TypeScript \<open>number\<close> is a binary64 floating-point number; it is modelled by the
  \<open>real\<close> it denotes. The arithmetic of \<open>compute\<close> uses \<open>Math.cos\<close>, \<open>Math.sin\<close>,
  \<open>Math.atan2\<close> and \<open>Math.hypot\<close>, whose binary64 results are
  implementation-approximated; it is idealised to exact real arithmetic, so the model
  covers finite inputs only: no NaN, no infinity, no signed zero.

  Rounding is kept in the two operations where it decides a test:
  \<^item> the product \<^verbatim>\<open>clAlphaPerDeg * alphaLin\<close> of \<open>compute\<close>, which underflows to zero
    for a subnormal angle of attack, so that \<open>cl\<close> can be zero where \<open>alphaDeg\<close> is not;
  \<^item> the addition \<^verbatim>\<open>V += 0.1\<close> of the top-speed sweep, whose accumulated value decides
    which speeds are sampled.

  An IEEE 754 operation returns the exact result rounded to the nearest binary64
  number, ties to even, and a decimal literal is the binary64 number nearest to it.
  \<open>binary64 x\<close> rounds a real to 53 significant bits (to a multiple of \<open>2^-1074\<close> in the
  subnormal range). Overflow to infinity is not modelled: the product is at most
  \<open>0.11 * 18\<close> in magnitude and the sweep stays below \<open>31\<close>.
\<close>

definition round_half_even :: "real \<Rightarrow> int" where
  "round_half_even x =
     (let f = \<lfloor>x\<rfloor>; d = x - of_int f
      in if d < 1 / 2 then f else if d > 1 / 2 then f + 1 else if even f then f else f + 1)"

definition binary64 :: "real \<Rightarrow> real" where
  "binary64 x =
     (if x = 0 then 0
      else (let e = max \<lfloor>log 2 \<bar>x\<bar>\<rfloor> (- 1022);
                u = 2 powr (of_int e - 52)
            in of_int (round_half_even (x / u)) * u))"

definition num_add :: "real \<Rightarrow> real \<Rightarrow> real" where
  "num_add x y = binary64 (x + y)"

definition num_mul :: "real \<Rightarrow> real \<Rightarrow> real" where
  "num_mul x y = binary64 (x * y)"

text \<open>The literals \<open>0.1\<close> (of the sweep) and \<open>0.11\<close> (of \<open>clAlphaPerDeg\<close>).\<close>

definition lit_0_1 :: real where
  "lit_0_1 = binary64 (1 / 10)"

definition lit_0_11 :: real where
  "lit_0_11 = binary64 (11 / 100)"

section \<open>The force model of \<open>src/physics.ts\<close>\<close>

record Inputs =
  trueWindSpeed :: real
  courseAngleDeg :: real
  boardSpeed :: real
  sailArea :: real
  sheetingDeg :: real
  downhaul :: real
  outhaul :: real

record Outputs =
  apparentWindSpeed :: real
  apparentWindAngleDeg :: real
  alphaDeg :: real
  cl :: real
  cd :: real
  liftN :: real
  dragN :: real
  driveN :: real
  sideN :: real
  powerW :: real
  Va_x :: real
  Va_y :: real
  L_x :: real
  L_y :: real
  D_x :: real
  D_y :: real
  F_x :: real
  F_y :: real

definition DEG :: real where
  "DEG = pi / 180"

definition RAD :: real where
  "RAD = 180 / pi"

definition clamp :: "real \<Rightarrow> real \<Rightarrow> real \<Rightarrow> real" where
  "clamp x lo hi = max lo (min hi x)"

definition vecMag :: "real \<Rightarrow> real \<Rightarrow> real" where
  "vecMag x y = sqrt (x * x + y * y)"

text \<open>
  \<open>Math.atan2 (y, x)\<close> on finite reals: the angle of the point \<open>(x, y)\<close> in
  \<open>(-\<pi>, \<pi>]\<close>, and \<open>0\<close> at the origin.
\<close>

definition atan2 :: "real \<Rightarrow> real \<Rightarrow> real" where
  "atan2 y x =
     (if 0 < x then arctan (y / x)
      else if x < 0 then (if 0 \<le> y then arctan (y / x) + pi else arctan (y / x) - pi)
      else if 0 < y then pi / 2
      else if y < 0 then - (pi / 2)
      else 0)"

definition angleDegFromXY :: "real \<Rightarrow> real \<Rightarrow> real" where
  "angleDegFromXY x y = atan2 y x * RAD"

text \<open>
  The two normalisation loops of \<open>compute\<close>:
  \<^verbatim>\<open>while (alphaDeg > 180) alphaDeg -= 360;\<close> and
  \<^verbatim>\<open>while (alphaDeg < -180) alphaDeg += 360;\<close>.
\<close>

function wrap_down :: "real \<Rightarrow> real" where
  "wrap_down a = (if a > 180 then wrap_down (a - 360) else a)"
  by pat_completeness auto
termination
proof (relation "measure (\<lambda>a. nat \<lceil>a\<rceil>)")
  show "wf (measure (\<lambda>a::real. nat \<lceil>a\<rceil>))" by simp
next
  fix a :: real
  assume "180 < a"
  then have "\<lceil>a - 360\<rceil> < \<lceil>a\<rceil>" "0 < \<lceil>a\<rceil>" by linarith+
  then show "(a - 360, a) \<in> measure (\<lambda>a. nat \<lceil>a\<rceil>)" by simp
qed

function wrap_up :: "real \<Rightarrow> real" where
  "wrap_up a = (if a < - 180 then wrap_up (a + 360) else a)"
  by pat_completeness auto
termination
proof (relation "measure (\<lambda>a. nat \<lceil>- a\<rceil>)")
  show "wf (measure (\<lambda>a::real. nat \<lceil>- a\<rceil>))" by simp
next
  fix a :: real
  assume "a < - 180"
  then have "\<lceil>- (a + 360)\<rceil> < \<lceil>- a\<rceil>" "0 < \<lceil>- a\<rceil>" by linarith+
  then show "(a + 360, a) \<in> measure (\<lambda>a. nat \<lceil>- a\<rceil>)" by simp
qed

text \<open>The number of times each loop body runs.\<close>

function wrap_down_iters :: "real \<Rightarrow> nat" where
  "wrap_down_iters a = (if a > 180 then Suc (wrap_down_iters (a - 360)) else 0)"
  by pat_completeness auto
termination
proof (relation "measure (\<lambda>a. nat \<lceil>a\<rceil>)")
  show "wf (measure (\<lambda>a::real. nat \<lceil>a\<rceil>))" by simp
next
  fix a :: real
  assume "180 < a"
  then have "\<lceil>a - 360\<rceil> < \<lceil>a\<rceil>" "0 < \<lceil>a\<rceil>" by linarith+
  then show "(a - 360, a) \<in> measure (\<lambda>a. nat \<lceil>a\<rceil>)" by simp
qed

function wrap_up_iters :: "real \<Rightarrow> nat" where
  "wrap_up_iters a = (if a < - 180 then Suc (wrap_up_iters (a + 360)) else 0)"
  by pat_completeness auto
termination
proof (relation "measure (\<lambda>a. nat \<lceil>- a\<rceil>)")
  show "wf (measure (\<lambda>a::real. nat \<lceil>- a\<rceil>))" by simp
next
  fix a :: real
  assume "a < - 180"
  then have "\<lceil>- (a + 360)\<rceil> < \<lceil>- a\<rceil>" "0 < \<lceil>- a\<rceil>" by linarith+
  then show "(a + 360, a) \<in> measure (\<lambda>a. nat \<lceil>- a\<rceil>)" by simp
qed

definition compute :: "Inputs \<Rightarrow> Outputs" where
  "compute inputs =
    (let tw = trueWindSpeed inputs;
         course = courseAngleDeg inputs * DEG;
         Vw_x = tw * cos (pi - course);
         Vw_y = tw * sin (pi - course);
         Vb_x = boardSpeed inputs;
         Vb_y = 0;
         Va_x = Vw_x - Vb_x;
         Va_y = Vw_y - Vb_y;
         Va = vecMag Va_x Va_y;
         awaDeg = angleDegFromXY Va_x Va_y;
         sailAngleDeg = clamp (sheetingDeg inputs) (- 85) 85;
         alphaDeg = wrap_up (wrap_down (awaDeg - sailAngleDeg));
         rho = 1.225;
         A = sailArea inputs;
         flatness = clamp (0.5 * downhaul inputs + 0.5 * outhaul inputs) 0 1;
         stallDeg = 18 - 5 * flatness;
         clAlphaPerDeg = lit_0_11;
         clMax = 1.2 - 0.4 * flatness;
         alphaLin = clamp alphaDeg (- stallDeg) stallDeg;
         cl = clamp (num_mul clAlphaPerDeg alphaLin) (- clMax) clMax;
         cd0 = 0.08 - 0.02 * flatness;
         k = 0.06;
         cd = cd0 + k * cl * cl;
         q = 0.5 * rho * Va * Va;
         liftN = q * A * cl;
         dragN = q * A * cd;
         eps = 1 / 10 ^ 9;
         ux = Va_x / (Va + eps);
         uy = Va_y / (Va + eps);
         D_x = - dragN * ux;
         D_y = - dragN * uy;
         sign = (if alphaDeg \<ge> 0 then 1 else - 1);
         L_x = sign * liftN * (- uy);
         L_y = sign * liftN * ux;
         F_x = L_x + D_x;
         F_y = L_y + D_y
     in \<lparr> apparentWindSpeed = Va,
          apparentWindAngleDeg = awaDeg,
          alphaDeg = alphaDeg,
          cl = cl,
          cd = cd,
          liftN = liftN,
          dragN = dragN,
          driveN = F_x,
          sideN = F_y,
          powerW = F_x * boardSpeed inputs,
          Va_x = Va_x,
          Va_y = Va_y,
          L_x = L_x,
          L_y = L_y,
          D_x = D_x,
          D_y = D_y,
          F_x = F_x,
          F_y = F_y \<rparr>)"

section \<open>The top-speed solver of \<open>src/App.tsx\<close>\<close>

subsection \<open>The sweep\<close>

text \<open>
  The body of the \<open>useMemo\<close> callback \<open>topSpeed\<close>: the loop
  \<^verbatim>\<open>for (let V = 0; V <= 30; V += 0.1)\<close> is \<open>sweep\<close>, started at \<open>V = 0\<close> and
  \<open>best = 0\<close>, with the addition in binary64. The loop is a partial function: \<open>None\<close> stands for a
  sweep that never ends. That the sweep started at \<open>0\<close> does end is lemma
  \<open>sweep_result\<close> below.
\<close>

partial_function (option) sweep :: "Inputs \<Rightarrow> real \<Rightarrow> real \<Rightarrow> real \<Rightarrow> real \<Rightarrow> real option" where
  "sweep inputs waterC0 waterC2 V best =
     (if V \<le> 30 then
        (let outV = compute (inputs\<lparr>boardSpeed := V\<rparr>);
             drive = max 0 (- Outputs.driveN outV);
             waterDrag = waterC0 + waterC2 * V * V
         in sweep inputs waterC0 waterC2 (num_add V lit_0_1)
              (if drive \<ge> waterDrag then V else best))
      else Some best)"

record TopSpeed =
  mps :: real
  kn :: real
  driveN :: real
  waterDragN :: real

definition topSpeed :: "Inputs \<Rightarrow> real \<Rightarrow> real \<Rightarrow> TopSpeed option" where
  "topSpeed inputs waterC0 waterC2 =
     (case sweep inputs waterC0 waterC2 0 0 of
        None \<Rightarrow> None
      | Some best \<Rightarrow>
          (let waterAtBest = waterC0 + waterC2 * best * best;
               outAtBest = compute (inputs\<lparr>boardSpeed := best\<rparr>)
           in Some \<lparr> mps = best,
                     kn = best * 1.943844,
                     driveN = - Outputs.driveN outAtBest,
                     waterDragN = waterAtBest \<rparr>))"

text \<open>The speeds at which the loop body runs.\<close>

inductive sampled :: "real \<Rightarrow> bool" where
  sampled_first: "sampled 0"
| sampled_next: "sampled V \<Longrightarrow> num_add V lit_0_1 \<le> 30 \<Longrightarrow> sampled (num_add V lit_0_1)"

subsection \<open>Auxiliary functions for the proofs\<close>

text \<open>
  \<open>tick k\<close> is the loop variable after \<open>k\<close> additions, and \<open>bestAfter\<close> the value of
  \<open>best\<close> after \<open>n\<close> runs of the loop body.
\<close>

definition tick :: "nat \<Rightarrow> real" where
  "tick k = ((\<lambda>V. num_add V lit_0_1) ^^ k) 0"

primrec bestAfter :: "Inputs \<Rightarrow> real \<Rightarrow> real \<Rightarrow> nat \<Rightarrow> real" where
  "bestAfter inputs waterC0 waterC2 0 = 0"
| "bestAfter inputs waterC0 waterC2 (Suc n) =
     (if max 0 (- Outputs.driveN (compute (inputs\<lparr>boardSpeed := tick n\<rparr>)))
           \<ge> waterC0 + waterC2 * tick n * tick n
      then tick n else bestAfter inputs waterC0 waterC2 n)"

text \<open>
  The loop variable is always a multiple of \<open>2^-56\<close>. On the numerators, rounding to
  53 significant bits is integer arithmetic: \<open>excess t\<close> is the number of bits of \<open>t\<close>
  beyond 53, \<open>round_keep s t\<close> rounds \<open>t\<close> to a multiple of \<open>2^s\<close>, ties to even, and
  \<open>next56\<close> is one addition of \<open>0.1 = 7205759403792794 / 2^56\<close>. \<open>run56 n m\<close> makes
  \<open>n\<close> additions from \<open>m\<close> and checks that each value before the last is below \<open>30\<close>.
\<close>

function excess :: "int \<Rightarrow> nat" where
  "excess m = (if m < 2 ^ 53 then 0 else Suc (excess (m div 2)))"
  by pat_completeness auto
termination
  by (relation "measure nat") auto

definition round_keep :: "nat \<Rightarrow> int \<Rightarrow> int" where
  "round_keep s m =
     (let q = m div 2 ^ s; r = m mod 2 ^ s
      in (if 2 * r < 2 ^ s then q else if 2 * r > 2 ^ s then q + 1
          else if even q then q else q + 1) * 2 ^ s)"

definition next56 :: "int \<Rightarrow> int" where
  "next56 m = (let t = m + 7205759403792794 in round_keep (excess t) t)"

function run56 :: "int \<Rightarrow> int \<Rightarrow> int option" where
  "run56 n m =
     (if n \<le> 0 then Some m
      else if m < 30 * 2 ^ 56 then run56 (n - 1) (next56 m) else None)"
  by pat_completeness auto
termination
  by (relation "measure (\<lambda>(n, m). nat n)") auto

section \<open>Rounding to binary64\<close>

declare wrap_down.simps [simp del] wrap_up.simps [simp del]
  wrap_down_iters.simps [simp del] wrap_up_iters.simps [simp del]
  excess.simps [simp del] run56.simps [simp del]

lemma floor_log2_eq:
  assumes "2 powr of_int k \<le> x" "x < 2 powr (of_int k + 1)"
  shows "\<lfloor>log 2 x\<rfloor> = k"
proof -
  have "(0::real) < 2 powr of_int k" by simp
  then have x: "0 < x" using assms(1) by linarith
  have "of_int k \<le> log 2 x" using assms(1) x by (simp add: le_log_iff)
  moreover have "log 2 x < of_int k + 1" using assms(2) x by (simp add: log_less_iff)
  ultimately show ?thesis by linarith
qed

lemma binary64_binade:
  assumes "2 powr of_int k \<le> x" "x < 2 powr (of_int k + 1)" "- 1022 \<le> k"
  shows "binary64 x = of_int (round_half_even (x / 2 powr (of_int k - 52))) * 2 powr (of_int k - 52)"
proof -
  have "(0::real) < 2 powr of_int k" by simp
  then have x: "0 < x" using assms(1) by linarith
  have "\<lfloor>log 2 \<bar>x\<bar>\<rfloor> = k" using floor_log2_eq [OF assms(1,2)] x by simp
  then show ?thesis using x assms(3) by (simp add: binary64_def Let_def max_def)
qed

lemma round_half_even_div:
  "round_half_even (of_int m / 2 ^ s) =
     (let q = m div 2 ^ s; r = m mod 2 ^ s
      in if 2 * r < 2 ^ s then q else if 2 * r > 2 ^ s then q + 1
         else if even q then q else q + 1)"
proof -
  define q where "q = m div 2 ^ s"
  define r where "r = m mod 2 ^ s"
  have p: "(0::real) < 2 ^ s" by simp
  have fl: "\<lfloor>real_of_int m / 2 ^ s\<rfloor> = q"
    using floor_divide_of_int_eq [of m "2 ^ s"] by (simp add: q_def)
  have "m = q * 2 ^ s + r" unfolding q_def r_def by (rule div_mult_mod_eq [symmetric])
  then have "real_of_int m = of_int q * 2 ^ s + of_int r" by (metis of_int_add of_int_mult of_int_numeral of_int_power)
  then have d: "real_of_int m / 2 ^ s - of_int q = of_int r / 2 ^ s"
    using p by (simp add: field_simps)
  have lt: "of_int r / (2::real) ^ s < 1 / 2 \<longleftrightarrow> 2 * r < 2 ^ s"
  proof -
    have "of_int r / (2::real) ^ s < 1 / 2 \<longleftrightarrow> real_of_int (2 * r) < real_of_int (2 ^ s)"
      using p by (simp add: field_simps)
    then show ?thesis by (simp only: of_int_less_iff)
  qed
  have gt: "of_int r / (2::real) ^ s > 1 / 2 \<longleftrightarrow> 2 * r > 2 ^ s"
  proof -
    have "of_int r / (2::real) ^ s > 1 / 2 \<longleftrightarrow> real_of_int (2 * r) > real_of_int (2 ^ s)"
      using p by (simp add: field_simps)
    then show ?thesis by (simp only: of_int_less_iff)
  qed
  show ?thesis
    unfolding round_half_even_def Let_def fl d lt gt q_def [symmetric] r_def [symmetric] ..
qed














section \<open>Properties of the force model\<close>

subsection \<open>Angles and the normalisation loops\<close>

lemma clamp_bounds: "lo \<le> hi \<Longrightarrow> lo \<le> clamp x lo hi \<and> clamp x lo hi \<le> hi"
  by (simp add: clamp_def)

lemma atan2_range: "- pi < atan2 y x \<and> atan2 y x \<le> pi"
proof -
  have a: "- (pi / 2) < arctan (y / x)" "arctan (y / x) < pi / 2"
    using arctan_lbound [of "y / x"] arctan_ubound [of "y / x"] by linarith+
  have p: "0 < pi" by simp
  consider (pos) "0 < x" | (negpos) "x < 0" "0 \<le> y" | (negneg) "x < 0" "y < 0"
    | (up) "x = 0" "0 < y" | (down) "x = 0" "y < 0" | (origin) "x = 0" "y = 0"
    by linarith
  then show ?thesis
  proof cases
    case pos
    then have "atan2 y x = arctan (y / x)" by (simp add: atan2_def)
    then show ?thesis using a p by linarith
  next
    case negpos
    then have "y / x \<le> 0" by (simp add: divide_nonneg_neg)
    then have "arctan (y / x) \<le> 0" by (simp add: arctan_le_zero_iff)
    moreover have "atan2 y x = arctan (y / x) + pi" using negpos by (simp add: atan2_def)
    ultimately show ?thesis using a p by linarith
  next
    case negneg
    then have "0 < y / x" by (simp add: divide_neg_neg)
    then have "0 < arctan (y / x)" by (simp add: zero_less_arctan_iff)
    moreover have "atan2 y x = arctan (y / x) - pi" using negneg by (simp add: atan2_def)
    ultimately show ?thesis using a p by linarith
  next
    case up
    then have "atan2 y x = pi / 2" by (simp add: atan2_def)
    then show ?thesis using p by linarith
  next
    case down
    then have "atan2 y x = - (pi / 2)" by (simp add: atan2_def)
    then show ?thesis using p by linarith
  next
    case origin
    then have "atan2 y x = 0" by (simp add: atan2_def)
    then show ?thesis using p by linarith
  qed
qed

lemma awa_range: "- 180 < angleDegFromXY x y \<and> angleDegFromXY x y \<le> 180"
proof -
  have p: "0 < pi" by simp
  have "- pi < atan2 y x" "atan2 y x \<le> pi" using atan2_range by simp_all
  then have "- pi * (180 / pi) < atan2 y x * (180 / pi)" "atan2 y x * (180 / pi) \<le> pi * (180 / pi)"
    using p by (simp_all add: field_simps)
  then show ?thesis using p by (simp add: angleDegFromXY_def RAD_def)
qed

lemma wrap_down_once: "a \<le> 540 \<Longrightarrow> wrap_down a = (if a > 180 then a - 360 else a)"
  by (subst wrap_down.simps, subst wrap_down.simps) simp

lemma wrap_up_once: "- 540 \<le> a \<Longrightarrow> wrap_up a = (if a < - 180 then a + 360 else a)"
  by (subst wrap_up.simps, subst wrap_up.simps) simp

lemma wrap_down_iters_once: "a \<le> 540 \<Longrightarrow> wrap_down_iters a = (if a > 180 then 1 else 0)"
  by (subst wrap_down_iters.simps, subst wrap_down_iters.simps) simp

lemma wrap_up_iters_once: "- 540 \<le> a \<Longrightarrow> wrap_up_iters a = (if a < - 180 then 1 else 0)"
  by (subst wrap_up_iters.simps, subst wrap_up_iters.simps) simp

lemma wrap_range:
  assumes "- 540 \<le> a" "a \<le> 540"
  shows "- 180 \<le> wrap_up (wrap_down a) \<and> wrap_up (wrap_down a) \<le> 180"
  using assms by (simp add: wrap_down_once wrap_up_once)

lemma alpha0_range:
  "- 540 \<le> angleDegFromXY x y - clamp s (- 85) 85 \<and> angleDegFromXY x y - clamp s (- 85) 85 \<le> 540"
  using awa_range [of x y] clamp_bounds [of "- 85" 85 s] by linarith

subsection \<open>The fields of the output\<close>

text \<open>
  Each field of the output of \<open>compute\<close>, in terms of the inputs and of the fields it is
  computed from.
\<close>

lemmas compute_unfold = compute_def Let_def Outputs.select_convs

lemma Va_x_compute:
  "Va_x (compute i) = trueWindSpeed i * cos (pi - courseAngleDeg i * DEG) - boardSpeed i"
  by (simp only: compute_unfold)

lemma Va_y_compute:
  "Va_y (compute i) = trueWindSpeed i * sin (pi - courseAngleDeg i * DEG) - 0"
  by (simp only: compute_unfold)

lemma Va_compute:
  "apparentWindSpeed (compute i) = vecMag (Va_x (compute i)) (Va_y (compute i))"
  by (simp only: compute_unfold)

lemma awaDeg_compute:
  "apparentWindAngleDeg (compute i) = angleDegFromXY (Va_x (compute i)) (Va_y (compute i))"
  by (simp only: compute_unfold)

lemma alphaDeg_compute:
  "alphaDeg (compute i) =
     wrap_up (wrap_down (apparentWindAngleDeg (compute i) - clamp (sheetingDeg i) (- 85) 85))"
  by (simp only: compute_unfold)

lemma cl_compute:
  "cl (compute i) =
     clamp (num_mul lit_0_11 (clamp (alphaDeg (compute i))
                     (- (18 - 5 * clamp (0.5 * downhaul i + 0.5 * outhaul i) 0 1))
                     (18 - 5 * clamp (0.5 * downhaul i + 0.5 * outhaul i) 0 1)))
       (- (1.2 - 0.4 * clamp (0.5 * downhaul i + 0.5 * outhaul i) 0 1))
       (1.2 - 0.4 * clamp (0.5 * downhaul i + 0.5 * outhaul i) 0 1)"
  by (simp only: compute_unfold)

lemma cd_compute:
  "cd (compute i) =
     0.08 - 0.02 * clamp (0.5 * downhaul i + 0.5 * outhaul i) 0 1
       + 0.06 * cl (compute i) * cl (compute i)"
  by (simp only: compute_unfold)

lemma liftN_compute:
  "liftN (compute i) =
     0.5 * 1.225 * apparentWindSpeed (compute i) * apparentWindSpeed (compute i)
       * sailArea i * cl (compute i)"
  by (simp only: compute_unfold)

lemma dragN_compute:
  "dragN (compute i) =
     0.5 * 1.225 * apparentWindSpeed (compute i) * apparentWindSpeed (compute i)
       * sailArea i * cd (compute i)"
  by (simp only: compute_unfold)

lemma D_x_compute:
  "D_x (compute i) =
     - dragN (compute i) * (Va_x (compute i) / (apparentWindSpeed (compute i) + 1 / 10 ^ 9))"
  by (simp only: compute_unfold)

lemma L_x_compute:
  "L_x (compute i) =
     (if alphaDeg (compute i) \<ge> 0 then 1 else - 1) * liftN (compute i)
       * (- (Va_y (compute i) / (apparentWindSpeed (compute i) + 1 / 10 ^ 9)))"
  by (simp only: compute_unfold)


lemma driveN_compute: "Outputs.driveN (compute i) = L_x (compute i) + D_x (compute i)"
  by (simp only: compute_unfold)

subsection \<open>Claims about the force model\<close>

text \<open>
  C3. For every input the output of \<open>compute\<close> has \<open>driveN = F_x\<close>, \<open>sideN = F_y\<close>
  and \<open>powerW = driveN * boardSpeed\<close>.
\<close>

theorem compute_drive_side_power:
  "Outputs.driveN (compute i) = F_x (compute i) \<and>
   sideN (compute i) = F_y (compute i) \<and>
   powerW (compute i) = Outputs.driveN (compute i) * boardSpeed i"
  by (simp only: compute_unfold simp_thms)

text \<open>
  C1, as amended. For every input the \<open>alphaDeg\<close> field of the output of \<open>compute\<close>
  lies in the closed interval \<open>[-180, 180]\<close>: the second loop runs only while
  \<open>alphaDeg < -180\<close>, so \<open>-180\<close> itself is left as it is.
\<close>

theorem alphaDeg_closed_range: "- 180 \<le> alphaDeg (compute i) \<and> alphaDeg (compute i) \<le> 180"
  unfolding alphaDeg_compute awaDeg_compute
  using alpha0_range by (intro wrap_range) simp_all

lemma flatness_bounds:
  "0 \<le> clamp (0.5 * downhaul i + 0.5 * outhaul i) 0 1 \<and>
   clamp (0.5 * downhaul i + 0.5 * outhaul i) 0 1 \<le> 1"
  by (rule clamp_bounds) simp

text \<open>
  C5. For every input the \<open>cl\<close> field of the output of \<open>compute\<close> lies in
  \<open>[-clMax, clMax]\<close>, where \<open>clMax = 1.2 - 0.4 * flatness\<close> and
  \<open>flatness = clamp (0.5 * downhaul + 0.5 * outhaul) 0 1\<close>.
\<close>

theorem cl_within_clMax:
  "- (1.2 - 0.4 * clamp (0.5 * downhaul i + 0.5 * outhaul i) 0 1) \<le> cl (compute i) \<and>
   cl (compute i) \<le> 1.2 - 0.4 * clamp (0.5 * downhaul i + 0.5 * outhaul i) 0 1"
proof -
  define f where "f = clamp (0.5 * downhaul i + 0.5 * outhaul i) 0 1"
  have "0 \<le> f \<and> f \<le> 1" unfolding f_def by (rule flatness_bounds)
  then have le: "- (1.2 - 0.4 * f) \<le> 1.2 - 0.4 * f" by simp
  show ?thesis
    unfolding cl_compute f_def [symmetric] by (rule clamp_bounds [OF le])
qed

lemma compute_cong:
  assumes "trueWindSpeed i = trueWindSpeed j" "courseAngleDeg i = courseAngleDeg j"
    "boardSpeed i = boardSpeed j" "sailArea i = sailArea j"
    "clamp (sheetingDeg i) (- 85) 85 = clamp (sheetingDeg j) (- 85) 85"
    "downhaul i = downhaul j" "outhaul i = outhaul j"
  shows "compute i = compute j"
  unfolding compute_def Let_def by (simp only: assms)

text \<open>
  C6. For an input whose \<open>sheetingDeg\<close> is above \<open>85\<close> (below \<open>-85\<close>) the output of
  \<open>compute\<close> equals, as a whole record, the output for the same input with
  \<open>sheetingDeg\<close> replaced by \<open>85\<close> (by \<open>-85\<close>).
\<close>

theorem sheeting_clamped:
  "(85 < sheetingDeg i \<longrightarrow> compute i = compute (i\<lparr>sheetingDeg := 85\<rparr>)) \<and>
   (sheetingDeg i < - 85 \<longrightarrow> compute i = compute (i\<lparr>sheetingDeg := - 85\<rparr>))"
proof (intro conjI impI)
  assume "85 < sheetingDeg i"
  then show "compute i = compute (i\<lparr>sheetingDeg := 85\<rparr>)"
    by (intro compute_cong) (simp_all add: clamp_def)
next
  assume "sheetingDeg i < - 85"
  then show "compute i = compute (i\<lparr>sheetingDeg := - 85\<rparr>)"
    by (intro compute_cong) (simp_all add: clamp_def)
qed

text \<open>C6 at \<open>sheetingDeg = 120\<close>: the output is that of \<open>sheetingDeg = 85\<close>.\<close>

theorem sheeting_clamped_witness:
  "compute \<lparr>trueWindSpeed = 10, courseAngleDeg = 120, boardSpeed = 8, sailArea = 6.5,
      sheetingDeg = 120, downhaul = 0.4, outhaul = 0.4\<rparr> =
   compute \<lparr>trueWindSpeed = 10, courseAngleDeg = 120, boardSpeed = 8, sailArea = 6.5,
      sheetingDeg = 85, downhaul = 0.4, outhaul = 0.4\<rparr>"
proof -
  have "(85::real) < sheetingDeg \<lparr>trueWindSpeed = 10, courseAngleDeg = 120, boardSpeed = 8,
      sailArea = 6.5, sheetingDeg = 120, downhaul = 0.4, outhaul = 0.4\<rparr>" by simp
  with sheeting_clamped [of "\<lparr>trueWindSpeed = 10, courseAngleDeg = 120, boardSpeed = 8,
      sailArea = 6.5, sheetingDeg = 120, downhaul = 0.4, outhaul = 0.4\<rparr>"]
  have "compute \<lparr>trueWindSpeed = 10, courseAngleDeg = 120, boardSpeed = 8, sailArea = 6.5,
      sheetingDeg = 120, downhaul = 0.4, outhaul = 0.4\<rparr> =
    compute (\<lparr>trueWindSpeed = 10, courseAngleDeg = 120, boardSpeed = 8, sailArea = 6.5,
      sheetingDeg = 120, downhaul = 0.4, outhaul = 0.4\<rparr>\<lparr>sheetingDeg := 85\<rparr>)"
    by blast
  then show ?thesis by (simp only: Inputs.update_convs)
qed

lemma Va_zero:
  assumes "trueWindSpeed i = 10" "boardSpeed i = 10" "courseAngleDeg i = 180"
  shows "apparentWindSpeed (compute i) = 0"
proof -
  have "pi - 180 * (pi / 180) = 0" by simp
  then have "Va_x (compute i) = 0" "Va_y (compute i) = 0"
    using assms by (simp_all add: Va_x_compute Va_y_compute DEG_def)
  then show ?thesis by (simp add: Va_compute vecMag_def)
qed

text \<open>
  C7. For \<open>trueWindSpeed = 10\<close>, \<open>boardSpeed = 10\<close> and \<open>courseAngleDeg = 180\<close>, with
  any sail and trim inputs, \<open>compute\<close> returns \<open>apparentWindSpeed = 0\<close> and zero lift
  and drag magnitudes.
\<close>

theorem head_wind_cancels:
  assumes "trueWindSpeed i = 10" "boardSpeed i = 10" "courseAngleDeg i = 180"
  shows "apparentWindSpeed (compute i) = 0 \<and> liftN (compute i) = 0 \<and> dragN (compute i) = 0"
  using Va_zero [OF assms] by (simp add: liftN_compute dragN_compute)

text \<open>C7 at the initial sail and trim settings of the application.\<close>

theorem head_wind_cancels_witness:
  "apparentWindSpeed (compute \<lparr>trueWindSpeed = 10, courseAngleDeg = 180, boardSpeed = 10,
      sailArea = 6.5, sheetingDeg = 20, downhaul = 0.4, outhaul = 0.3\<rparr>) = 0 \<and>
   liftN (compute \<lparr>trueWindSpeed = 10, courseAngleDeg = 180, boardSpeed = 10,
      sailArea = 6.5, sheetingDeg = 20, downhaul = 0.4, outhaul = 0.3\<rparr>) = 0 \<and>
   dragN (compute \<lparr>trueWindSpeed = 10, courseAngleDeg = 180, boardSpeed = 10,
      sailArea = 6.5, sheetingDeg = 20, downhaul = 0.4, outhaul = 0.3\<rparr>) = 0"
  by (rule head_wind_cancels) simp_all









text \<open>
  C8. \<open>compute\<close> is total: both normalisation loops are total functions, each loop
  body runs at most once on the value \<open>awaDeg - sailAngleDeg\<close> that reaches it, and the
  only divisor, \<open>Va + eps\<close>, is positive. No other construct of \<open>compute\<close> can fail.
\<close>

theorem alpha_loops_bounded:
  "wrap_down_iters (apparentWindAngleDeg (compute i) - clamp (sheetingDeg i) (- 85) 85) \<le> 1 \<and>
   wrap_up_iters (wrap_down (apparentWindAngleDeg (compute i) - clamp (sheetingDeg i) (- 85) 85)) \<le> 1 \<and>
   alphaDeg (compute i) =
     wrap_up (wrap_down (apparentWindAngleDeg (compute i) - clamp (sheetingDeg i) (- 85) 85)) \<and>
   apparentWindSpeed (compute i) + 1 / 10 ^ 9 > 0"
proof -
  define a where "a = apparentWindAngleDeg (compute i) - clamp (sheetingDeg i) (- 85) 85"
  have r: "- 540 \<le> a \<and> a \<le> 540"
    unfolding a_def awaDeg_compute by (rule alpha0_range)
  then have d: "wrap_down_iters a \<le> 1" by (simp add: wrap_down_iters_once)
  have "- 540 \<le> wrap_down a" using r by (simp add: wrap_down_once)
  then have u: "wrap_up_iters (wrap_down a) \<le> 1" by (simp add: wrap_up_iters_once)
  have "0 \<le> apparentWindSpeed (compute i)" by (simp add: Va_compute vecMag_def)
  then have e: "apparentWindSpeed (compute i) + 1 / 10 ^ 9 > 0" by simp
  show ?thesis using d u e alphaDeg_compute [of i] unfolding a_def by (simp only: simp_thms)
qed

text \<open>
  C1, as stated, fails: with a true wind of 1 m/s on course 270 and a board speed of
  1 m/s the apparent wind is \<open>(-1, -1)\<close>, its angle is \<open>-135\<close> degrees, and with the
  sail sheeted at 45 degrees \<open>compute\<close> returns \<open>alphaDeg = -180\<close>, outside the half-open
  interval \<open>(-180, 180]\<close>.
\<close>

theorem alphaDeg_minus_180:
  "alphaDeg (compute \<lparr>trueWindSpeed = 1, courseAngleDeg = 270, boardSpeed = 1, sailArea = 6.5,
      sheetingDeg = 45, downhaul = 0.4, outhaul = 0.3\<rparr>) = - 180"
proof -
  define i where "i = \<lparr>trueWindSpeed = 1, courseAngleDeg = 270, boardSpeed = 1,
      sailArea = 6.5, sheetingDeg = 45, downhaul = 0.4, outhaul = 0.3\<rparr>"
  have c: "pi - 270 * (pi / 180) = - (pi / 2)" by simp
  have x: "Va_x (compute i) = - 1"
    unfolding Va_x_compute by (simp add: i_def DEG_def c)
  have y: "Va_y (compute i) = - 1"
    unfolding Va_y_compute by (simp add: i_def DEG_def c)
  have "atan2 (- 1) (- 1) = arctan 1 - pi" by (simp add: atan2_def)
  then have "atan2 (- 1) (- 1) = - (3 * pi / 4)" by (simp add: arctan_one)
  then have "apparentWindAngleDeg (compute i) = - 135"
    unfolding awaDeg_compute x y angleDegFromXY_def RAD_def by simp
  moreover have "clamp (sheetingDeg i) (- 85) 85 = 45" by (simp add: i_def clamp_def)
  ultimately have "alphaDeg (compute i) = wrap_up (wrap_down (- 180))"
    unfolding alphaDeg_compute by simp
  also have "\<dots> = - 180" by (simp add: wrap_down_once wrap_up_once)
  finally show ?thesis unfolding i_def .
qed

section \<open>Properties of the top-speed solver\<close>

subsection \<open>Binary64 on multiples of \<open>2^-56\<close>\<close>

lemma excess_bounds:
  "2 ^ 52 \<le> t \<Longrightarrow> 2 ^ (52 + excess t) \<le> t \<and> t < 2 ^ (53 + excess t)"
proof (induction t rule: excess.induct)
  case (1 m)
  show ?case
  proof (cases "m < 2 ^ 53")
    case True
    then show ?thesis using "1.prems" by (simp add: excess.simps [of m])
  next
    case False
    then have "2 ^ 52 \<le> m div 2" by simp
    with "1.IH" False
    have ih: "2 ^ (52 + excess (m div 2)) \<le> m div 2" "m div 2 < 2 ^ (53 + excess (m div 2))"
      by simp_all
    have e: "excess m = Suc (excess (m div 2))" using False by (simp add: excess.simps [of m])
    have "2 * 2 ^ (52 + excess (m div 2)) \<le> m" using ih(1) by linarith
    moreover have "m < 2 * 2 ^ (53 + excess (m div 2))" using ih(2) by linarith
    ultimately show ?thesis unfolding e by (simp add: power_add)
  qed
qed

lemma binary64_dyadic:
  assumes "2 ^ 52 \<le> t"
  shows "binary64 (real_of_int t / 2 ^ 56) = real_of_int (round_keep (excess t) t) / 2 ^ 56"
proof -
  define s where "s = excess t"
  have b: "2 ^ (52 + s) \<le> t" "t < 2 ^ (53 + s)"
    using excess_bounds [OF assms] by (simp_all add: s_def)
  have pk: "2 powr of_int (int s - 4) = (2::real) ^ s / 16"
    by (simp add: powr_diff powr_realpow)
  have pk1: "2 powr (of_int (int s - 4) + 1) = (2::real) ^ s / 8"
  proof -
    have "of_int (int s - 4) + 1 = real s - 3" by simp
    then show ?thesis by (simp add: powr_diff powr_realpow)
  qed
  have pu: "2 powr (of_int (int s - 4) - 52) = (2::real) ^ s / 2 ^ 56"
  proof -
    have "of_int (int s - 4) - 52 = real s - 56" by simp
    then show ?thesis by (simp add: powr_diff powr_realpow)
  qed
  have "real_of_int (2 ^ (52 + s)) \<le> real_of_int t" using b(1) by (simp only: of_int_le_iff)
  then have lo: "2 powr of_int (int s - 4) \<le> real_of_int t / 2 ^ 56"
    unfolding pk by (simp add: power_add field_simps)
  have "real_of_int t < real_of_int (2 ^ (53 + s))" using b(2) by (simp only: of_int_less_iff)
  then have hi: "real_of_int t / 2 ^ 56 < 2 powr (of_int (int s - 4) + 1)"
    unfolding pk1 by (simp add: power_add field_simps)
  have q: "real_of_int t / 2 ^ 56 / (2 ^ s / 2 ^ 56) = real_of_int t / 2 ^ s" by simp
  have "binary64 (real_of_int t / 2 ^ 56) =
      of_int (round_half_even (real_of_int t / 2 ^ s)) * (2 ^ s / 2 ^ 56)"
    using binary64_binade [OF lo hi] unfolding pu q by simp
  also have "\<dots> = of_int (round_keep s t) / 2 ^ 56"
    unfolding round_half_even_div round_keep_def Let_def by simp
  finally show ?thesis unfolding s_def .
qed

lemma lit_0_1_value: "lit_0_1 = 7205759403792794 / 2 ^ 56"
proof -
  have lo: "2 powr of_int (- 4) \<le> (1 / 10 :: real)" by (simp add: powr_minus_divide)
  have hi: "(1 / 10 :: real) < 2 powr (of_int (- 4) + 1)" by (simp add: powr_minus_divide)
  have u: "2 powr (of_int (- 4) - 52) = (1::real) / 2 ^ 56" by (simp add: powr_minus_divide)
  have r: "round_half_even (1 / 10 / (1 / 2 ^ 56)) = 7205759403792794"
    by (simp add: round_half_even_def Let_def)
  show ?thesis
    unfolding lit_0_1_def using binary64_binade [OF lo hi] unfolding u r by simp
qed

lemma round_keep_nonneg: "0 \<le> t \<Longrightarrow> 0 \<le> round_keep s t"
  by (auto simp add: round_keep_def Let_def pos_imp_zdiv_nonneg_iff)

lemma next56_nonneg: "0 \<le> m \<Longrightarrow> 0 \<le> next56 m"
  by (simp add: next56_def Let_def round_keep_nonneg)

lemma num_add_dyadic:
  assumes "0 \<le> m"
  shows "num_add (real_of_int m / 2 ^ 56) lit_0_1 = real_of_int (next56 m) / 2 ^ 56"
proof -
  have "real_of_int m / 2 ^ 56 + lit_0_1 = real_of_int (m + 7205759403792794) / 2 ^ 56"
    by (simp add: lit_0_1_value add_divide_distrib)
  moreover have "2 ^ 52 \<le> m + 7205759403792794" using assms by simp
  ultimately show ?thesis
    unfolding num_add_def next56_def Let_def by (simp only: binary64_dyadic)
qed

subsection \<open>The values of the loop variable\<close>

text \<open>
  Conditional equations that evaluate \<open>run56\<close> on numerals; with them the simplifier
  makes the 299 additions of \<open>run_299\<close>.
\<close>

lemma excess_small: "m < 9007199254740992 \<Longrightarrow> excess m = 0"
  by (simp add: excess.simps [of m])

lemma excess_large: "9007199254740992 \<le> m \<Longrightarrow> excess m = Suc (excess (m div 2))"
  by (simp add: excess.simps [of m])

lemma round_keep_eval:
  "round_keep s t =
     (if 2 * (t mod 2 ^ s) < 2 ^ s then t div 2 ^ s * 2 ^ s
      else if 2 * (t mod 2 ^ s) > 2 ^ s then (t div 2 ^ s + 1) * 2 ^ s
      else if even (t div 2 ^ s) then t div 2 ^ s * 2 ^ s else (t div 2 ^ s + 1) * 2 ^ s)"
  by (simp add: round_keep_def Let_def)

lemma next56_eval: "next56 m = round_keep (excess (m + 7205759403792794)) (m + 7205759403792794)"
  by (simp add: next56_def Let_def)

lemma run56_done: "n \<le> 0 \<Longrightarrow> run56 n m = Some m"
  by (simp add: run56.simps [of n m])

lemma run56_step:
  "0 < n \<Longrightarrow> m < 2161727821137838080 \<Longrightarrow> run56 n m = run56 (n - 1) (next56 m)"
  by (simp add: run56.simps [of n m])

lemmas eval56 = next56_eval round_keep_eval excess_small excess_large run56_done run56_step

lemma run_299: "run56 299 0 = Some 2154522061734056448"
  by (simp add: eval56)

lemma step_300: "next56 2154522061734056448 = 2161727821137849344"
  by (simp add: eval56)

lemma tick_0: "tick 0 = 0"
  by (simp add: tick_def)

lemma tick_Suc: "tick (Suc k) = num_add (tick k) lit_0_1"
  by (simp add: tick_def)

lemma run56_sound:
  "run56 n m = Some a \<Longrightarrow>
     (\<forall>k < nat n. (next56 ^^ k) m < 30 * 2 ^ 56) \<and> (next56 ^^ nat n) m = a"
proof (induction n m rule: run56.induct)
  case (1 n m)
  show ?case
  proof (cases "n \<le> 0")
    case True
    then show ?thesis using "1.prems" by (simp add: run56_done)
  next
    case False
    then have pos: "0 < n" by simp
    have le: "m < 30 * 2 ^ 56"
      using "1.prems" False by (simp add: run56.simps [of n m] split: if_splits)
    then have r: "run56 (n - 1) (next56 m) = Some a"
      using "1.prems" False by (simp add: run56.simps [of n m])
    from "1.IH" [OF False le r]
    have ih: "\<forall>k < nat (n - 1). (next56 ^^ k) (next56 m) < 30 * 2 ^ 56"
      "(next56 ^^ nat (n - 1)) (next56 m) = a" by simp_all
    have n: "nat n = Suc (nat (n - 1))" using pos by simp
    have "(next56 ^^ k) m < 30 * 2 ^ 56" if "k < nat n" for k
    proof (cases k)
      case 0
      then show ?thesis using le by simp
    next
      case (Suc j)
      then have "j < nat (n - 1)" using that n by simp
      then show ?thesis using ih(1) Suc by (simp add: funpow_swap1)
    qed
    moreover have "(next56 ^^ nat n) m = a"
      unfolding n using ih(2) by (simp add: funpow_swap1)
    ultimately show ?thesis by simp
  qed
qed

lemma tick_dyadic: "tick k = real_of_int ((next56 ^^ k) 0) / 2 ^ 56 \<and> 0 \<le> (next56 ^^ k) 0"
proof (induction k)
  case 0
  show ?case by (simp add: tick_0)
next
  case (Suc k)
  then have t: "tick k = real_of_int ((next56 ^^ k) 0) / 2 ^ 56" and n: "0 \<le> (next56 ^^ k) 0"
    by simp_all
  have "tick (Suc k) = real_of_int (next56 ((next56 ^^ k) 0)) / 2 ^ 56"
    unfolding tick_Suc t by (rule num_add_dyadic [OF n])
  moreover have "0 \<le> next56 ((next56 ^^ k) 0)" by (rule next56_nonneg [OF n])
  ultimately show ?case by simp
qed

lemma ticks_below_30: "k < 300 \<Longrightarrow> tick k < 30"
proof -
  assume k: "k < 300"
  have "(next56 ^^ k) 0 < 30 * 2 ^ 56"
  proof (cases "k < 299")
    case True
    then show ?thesis using run56_sound [OF run_299] by simp
  next
    case False
    then have "k = 299" using k by simp
    then show ?thesis using run56_sound [OF run_299] by simp
  qed
  then have "real_of_int ((next56 ^^ k) 0) < real_of_int (30 * 2 ^ 56)"
    by (simp only: of_int_less_iff)
  then show ?thesis using tick_dyadic [of k] by (simp add: field_simps)
qed

lemma ticks_sampled_range: "k < 300 \<Longrightarrow> tick k \<le> 30"
  using ticks_below_30 [of k] by simp

lemma tick_299: "tick 299 = 2154522061734056448 / 2 ^ 56"
  using tick_dyadic [of 299] run56_sound [OF run_299] by simp

lemma tick_300: "tick 300 = 2161727821137849344 / 2 ^ 56"
proof -
  have "(next56 ^^ 300) 0 = next56 ((next56 ^^ 299) 0)"
  proof -
    have "(300::nat) = Suc 299" by simp
    then show ?thesis by (simp only: funpow.simps o_apply)
  qed
  also have "\<dots> = 2161727821137849344" using run56_sound [OF run_299] step_300 by simp
  finally show ?thesis using tick_dyadic [of 300] by simp
qed

lemma tick_300_exceeds: "30 < tick 300"
  by (simp add: tick_300)

subsection \<open>The sweep returns\<close>

text \<open>
  From \<open>V = 0\<close> the loop body runs 300 times, at \<open>tick 0\<close> ... \<open>tick 299\<close>, for every
  input and all water drag coefficients.
\<close>

lemma sweep_step:
  "V \<le> 30 \<Longrightarrow>
   sweep i c0 c2 V best =
     sweep i c0 c2 (num_add V lit_0_1)
       (if max 0 (- Outputs.driveN (compute (i\<lparr>boardSpeed := V\<rparr>))) \<ge> c0 + c2 * V * V
        then V else best)"
  by (subst sweep.simps) (simp only: Let_def if_True)

lemma sweep_exit: "30 < V \<Longrightarrow> sweep i c0 c2 V best = Some best"
  by (subst sweep.simps) simp

lemma sweep_unroll:
  "n \<le> 300 \<Longrightarrow> sweep i c0 c2 0 0 = sweep i c0 c2 (tick n) (bestAfter i c0 c2 n)"
proof (induction n)
  case 0
  show ?case by (simp add: tick_0)
next
  case (Suc n)
  then have "n < 300" by simp
  then have "tick n \<le> 30" by (rule ticks_sampled_range)
  then show ?case using Suc by (simp add: sweep_step tick_Suc)
qed

lemma sweep_result: "sweep i c0 c2 0 0 = Some (bestAfter i c0 c2 300)"
  using sweep_unroll [of 300 i c0 c2] by (simp add: sweep_exit tick_300_exceeds)

lemma topSpeed_result:
  "topSpeed i c0 c2 =
     Some \<lparr> mps = bestAfter i c0 c2 300,
            kn = bestAfter i c0 c2 300 * 1.943844,
            driveN = - Outputs.driveN (compute (i\<lparr>boardSpeed := bestAfter i c0 c2 300\<rparr>)),
            waterDragN = c0 + c2 * bestAfter i c0 c2 300 * bestAfter i c0 c2 300 \<rparr>"
  unfolding topSpeed_def sweep_result by (simp only: Let_def option.case)

lemma sampled_tick: "k < 300 \<Longrightarrow> sampled (tick k)"
proof (induction k)
  case 0
  show ?case unfolding tick_0 by (rule sampled_first)
next
  case (Suc k)
  then have "sampled (tick k)" by simp
  moreover have "num_add (tick k) lit_0_1 \<le> 30"
    using ticks_sampled_range [OF Suc.prems] by (simp add: tick_Suc)
  ultimately show ?case unfolding tick_Suc by (rule sampled_next)
qed

lemma sampled_is_tick: "sampled V \<Longrightarrow> \<exists>k<300. V = tick k"
proof (induction rule: sampled.induct)
  case sampled_first
  have "(0::nat) < 300 \<and> 0 = tick 0" by (simp add: tick_0)
  then show ?case by blast
next
  case (sampled_next V)
  then obtain k where k: "k < 300" "V = tick k" by blast
  have "num_add V lit_0_1 = tick (Suc k)" using k by (simp add: tick_Suc)
  moreover have "Suc k \<noteq> 300"
  proof
    assume "Suc k = 300"
    then have "30 < tick (Suc k)" using tick_300_exceeds by simp
    then show False using sampled_next.hyps(2) k by (simp add: tick_Suc)
  qed
  then have "Suc k < 300" using k by simp
  ultimately show ?case by blast
qed

lemma sampled_iff: "sampled V \<longleftrightarrow> (\<exists>k<300. V = tick k)"
  using sampled_is_tick sampled_tick by blast

lemma sampled_nonneg: "sampled V \<Longrightarrow> 0 \<le> V"
proof -
  assume "sampled V"
  then obtain k where "V = tick k" using sampled_is_tick by blast
  then show ?thesis using tick_dyadic [of k] by simp
qed

lemma bestAfter_none:
  "(\<forall>k<n. max 0 (- Outputs.driveN (compute (i\<lparr>boardSpeed := tick k\<rparr>)))
              < c0 + c2 * tick k * tick k)
   \<Longrightarrow> bestAfter i c0 c2 n = 0"
proof (induction n)
  case 0
  show ?case by simp
next
  case (Suc n)
  then have "bestAfter i c0 c2 n = 0" by simp
  moreover have "\<not> max 0 (- Outputs.driveN (compute (i\<lparr>boardSpeed := tick n\<rparr>)))
      \<ge> c0 + c2 * tick n * tick n"
    using Suc.prems by (simp add: not_le)
  ultimately show ?case by (simp only: bestAfter.simps if_False)
qed

lemma bestAfter_last:
  "max 0 (- Outputs.driveN (compute (i\<lparr>boardSpeed := tick n\<rparr>))) \<ge> c0 + c2 * tick n * tick n
   \<Longrightarrow> bestAfter i c0 c2 (Suc n) = tick n"
  by simp

subsection \<open>A dead run\<close>

text \<open>
  With the wind from behind (course angle \<open>0\<close>) the apparent wind is along \<open>- x\<close>: the
  lift has no \<open>x\<close> component and the drag a positive one, so \<open>driveN\<close> is positive at
  every board speed \<open>V \<ge> 0\<close> and the drive \<open>max 0 (- driveN)\<close> of the solver is \<open>0\<close>.
\<close>

lemma cd_pos: "0 < cd (compute i)"
proof -
  have "clamp (0.5 * downhaul i + 0.5 * outhaul i) 0 1 \<le> 1"
    using flatness_bounds [of i] by simp
  then have "0 < 0.08 - 0.02 * clamp (0.5 * downhaul i + 0.5 * outhaul i) 0 1" by simp
  moreover have "0 \<le> 0.06 * (cl (compute i) * cl (compute i))" by simp
  ultimately show ?thesis unfolding cd_compute by (simp only: mult.assoc)
qed

lemma tail_wind_drive_pos:
  assumes "Va_y (compute i) = 0" "Va_x (compute i) < 0" "0 < sailArea i"
  shows "0 < Outputs.driveN (compute i)"
proof -
  have va: "apparentWindSpeed (compute i) = - Va_x (compute i)"
    unfolding Va_compute vecMag_def using assms(1,2) by simp
  then have vp: "0 < apparentWindSpeed (compute i)" using assms(2) by simp
  have "0 < 0.5 * 1.225 * apparentWindSpeed (compute i) * apparentWindSpeed (compute i)
      * sailArea i * cd (compute i)"
    using vp assms(3) cd_pos [of i] by simp
  then have dp: "0 < dragN (compute i)" by (simp only: dragN_compute)
  have "Va_x (compute i) / (apparentWindSpeed (compute i) + 1 / 10 ^ 9) < 0"
    using vp assms(2) by (simp add: divide_neg_pos)
  then have "dragN (compute i) * (Va_x (compute i) / (apparentWindSpeed (compute i) + 1 / 10 ^ 9)) < 0"
    by (rule mult_pos_neg [OF dp])
  then have "0 < - dragN (compute i) * (Va_x (compute i) / (apparentWindSpeed (compute i) + 1 / 10 ^ 9))"
    by (simp only: mult_minus_left neg_0_less_iff_less)
  then have d: "0 < D_x (compute i)" by (simp only: D_x_compute)
  have l: "L_x (compute i) = 0" unfolding L_x_compute using assms(1) by simp
  show ?thesis unfolding driveN_compute using d l by simp
qed

lemma dead_run_drive_pos:
  assumes "courseAngleDeg i = 0" "0 < trueWindSpeed i" "0 < sailArea i" "0 \<le> V"
  shows "0 < Outputs.driveN (compute (i\<lparr>boardSpeed := V\<rparr>))"
proof (rule tail_wind_drive_pos)
  show "Va_y (compute (i\<lparr>boardSpeed := V\<rparr>)) = 0"
    unfolding Va_y_compute using assms(1) by simp
  show "Va_x (compute (i\<lparr>boardSpeed := V\<rparr>)) < 0"
    unfolding Va_x_compute using assms by simp
  show "0 < sailArea (i\<lparr>boardSpeed := V\<rparr>)" using assms(3) by simp
qed

lemma none_balanced_result:
  assumes "\<forall>V. sampled V \<longrightarrow>
      max 0 (- Outputs.driveN (compute (i\<lparr>boardSpeed := V\<rparr>))) < c0 + c2 * V * V"
  shows "topSpeed i c0 c2 =
      Some \<lparr> mps = 0, kn = 0,
             driveN = - Outputs.driveN (compute (i\<lparr>boardSpeed := 0\<rparr>)),
             waterDragN = c0 \<rparr> \<and>
    - Outputs.driveN (compute (i\<lparr>boardSpeed := 0\<rparr>)) < c0"
proof -
  have "\<forall>k<300. max 0 (- Outputs.driveN (compute (i\<lparr>boardSpeed := tick k\<rparr>)))
      < c0 + c2 * tick k * tick k"
    using assms sampled_tick by blast
  then have b: "bestAfter i c0 c2 300 = 0" by (rule bestAfter_none)
  have "max 0 (- Outputs.driveN (compute (i\<lparr>boardSpeed := 0\<rparr>))) < c0 + c2 * 0 * 0"
    using assms sampled_first by blast
  then have "- Outputs.driveN (compute (i\<lparr>boardSpeed := 0\<rparr>)) < c0" by simp
  then show ?thesis unfolding topSpeed_result b by simp
qed

lemma dead_run_unbalanced:
  assumes "courseAngleDeg i = 0" "0 < trueWindSpeed i" "0 < sailArea i" "0 < c0" "0 \<le> c2"
    "sampled V"
  shows "max 0 (- Outputs.driveN (compute (i\<lparr>boardSpeed := V\<rparr>))) < c0 + c2 * V * V"
proof -
  have v: "0 \<le> V" using assms(6) by (rule sampled_nonneg)
  have "0 < Outputs.driveN (compute (i\<lparr>boardSpeed := V\<rparr>))"
    using assms(1-3) v by (rule dead_run_drive_pos)
  then have "max 0 (- Outputs.driveN (compute (i\<lparr>boardSpeed := V\<rparr>))) = 0" by simp
  moreover have "0 \<le> c2 * (V * V)" using assms(5) by simp
  then have "0 < c0 + c2 * V * V" using assms(4) by (simp only: mult.assoc)
  ultimately show ?thesis by simp
qed

lemma sampled_not_30: "\<not> sampled 30"
proof
  assume "sampled 30"
  then obtain k where "k < 300" "30 = tick k" using sampled_is_tick by blast
  then show False using ticks_below_30 [of k] by simp
qed

lemma no_drag_best: "bestAfter i 0 0 300 = tick 299"
proof -
  have "(300::nat) = Suc 299" by simp
  moreover have "bestAfter i 0 0 (Suc 299) = tick 299" by (rule bestAfter_last) simp
  ultimately show ?thesis by simp
qed

subsection \<open>Claims about the solver\<close>

text \<open>
  C2, as amended. If at every sampled speed the drive \<open>max 0 (- driveN)\<close> is strictly
  below the water drag \<open>waterC0 + waterC2 * V * V\<close>, the solver returns speed \<open>0\<close>,
  water drag \<open>waterC0\<close>, and as drive force the raw \<open>- driveN\<close> of \<open>compute\<close> at board
  speed \<open>0\<close>, which is below \<open>waterC0\<close> (and need not be zero).
\<close>

theorem topSpeed_no_balance:
  assumes "\<forall>V. sampled V \<longrightarrow>
      max 0 (- Outputs.driveN (compute (i\<lparr>boardSpeed := V\<rparr>))) < c0 + c2 * V * V"
  shows "topSpeed i c0 c2 =
      Some \<lparr> mps = 0, kn = 0,
             driveN = - Outputs.driveN (compute (i\<lparr>boardSpeed := 0\<rparr>)),
             waterDragN = c0 \<rparr> \<and>
    - Outputs.driveN (compute (i\<lparr>boardSpeed := 0\<rparr>)) < c0"
  using assms by (rule none_balanced_result)

text \<open>
  C2, as amended, on a dead run (course angle \<open>0\<close>) with the initial water drag
  coefficients of the application: no sampled speed balances.
\<close>

theorem topSpeed_no_balance_witness:
  "topSpeed \<lparr>trueWindSpeed = 10, courseAngleDeg = 0, boardSpeed = 8, sailArea = 6.5,
       sheetingDeg = 20, downhaul = 0.4, outhaul = 0.3\<rparr> 30 1.2 =
     Some \<lparr> mps = 0, kn = 0,
            driveN = - Outputs.driveN (compute (\<lparr>trueWindSpeed = 10, courseAngleDeg = 0,
              boardSpeed = 8, sailArea = 6.5, sheetingDeg = 20, downhaul = 0.4,
              outhaul = 0.3\<rparr>\<lparr>boardSpeed := 0\<rparr>)),
            waterDragN = 30 \<rparr> \<and>
   - Outputs.driveN (compute (\<lparr>trueWindSpeed = 10, courseAngleDeg = 0,
              boardSpeed = 8, sailArea = 6.5, sheetingDeg = 20, downhaul = 0.4,
              outhaul = 0.3\<rparr>\<lparr>boardSpeed := 0\<rparr>)) < 30"
proof (rule topSpeed_no_balance, intro allI impI)
  fix V :: real
  assume "sampled V"
  then show "max 0 (- Outputs.driveN (compute (\<lparr>trueWindSpeed = 10, courseAngleDeg = 0,
      boardSpeed = 8, sailArea = 6.5, sheetingDeg = 20, downhaul = 0.4,
      outhaul = 0.3\<rparr>\<lparr>boardSpeed := V\<rparr>))) < 30 + 1.2 * V * V"
    by (intro dead_run_unbalanced) simp_all
qed

text \<open>
  C2, as stated, fails: on this dead run no sampled speed has drive at or above the
  water drag, the solver returns speed \<open>0\<close> and water drag \<open>waterC0 = 25\<close>, but the
  returned drive force is not zero.
\<close>

theorem topSpeed_zero_drive_counterexample:
  "(\<nexists>V. sampled V \<and>
        25 + 1 * V * V \<le> max 0 (- Outputs.driveN (compute (\<lparr>trueWindSpeed = 8,
          courseAngleDeg = 0, boardSpeed = 5, sailArea = 5, sheetingDeg = 10, downhaul = 0.5,
          outhaul = 0.5\<rparr>\<lparr>boardSpeed := V\<rparr>)))) \<and>
   (\<exists>r. topSpeed \<lparr>trueWindSpeed = 8, courseAngleDeg = 0, boardSpeed = 5, sailArea = 5,
          sheetingDeg = 10, downhaul = 0.5, outhaul = 0.5\<rparr> 25 1 = Some r \<and>
        mps r = 0 \<and> waterDragN r = 25 \<and> TopSpeed.driveN r \<noteq> 0)"
proof -
  define i where "i = \<lparr>trueWindSpeed = 8, courseAngleDeg = 0, boardSpeed = 5, sailArea = 5,
      sheetingDeg = 10, downhaul = 0.5, outhaul = 0.5\<rparr>"
  have u: "max 0 (- Outputs.driveN (compute (i\<lparr>boardSpeed := V\<rparr>))) < 25 + 1 * V * V"
    if "sampled V" for V
    using that by (intro dead_run_unbalanced) (simp_all add: i_def)
  then have a: "\<nexists>V. sampled V \<and>
      25 + 1 * V * V \<le> max 0 (- Outputs.driveN (compute (i\<lparr>boardSpeed := V\<rparr>)))"
    by (meson not_le)
  have "0 < Outputs.driveN (compute (i\<lparr>boardSpeed := 0\<rparr>))"
    by (rule dead_run_drive_pos) (simp_all add: i_def)
  then have n: "- Outputs.driveN (compute (i\<lparr>boardSpeed := 0\<rparr>)) \<noteq> 0" by simp
  have "topSpeed i 25 1 =
      Some \<lparr> mps = 0, kn = 0,
             driveN = - Outputs.driveN (compute (i\<lparr>boardSpeed := 0\<rparr>)),
             waterDragN = 25 \<rparr>"
    using none_balanced_result [of i 25 1] u by blast
  then have "\<exists>r. topSpeed i 25 1 = Some r \<and> mps r = 0 \<and> waterDragN r = 25 \<and>
      TopSpeed.driveN r \<noteq> 0"
    using n by simp
  then show ?thesis using a unfolding i_def by blast
qed

text \<open>
  C4. With \<open>waterC0 = 0\<close> and \<open>waterC2 = 0\<close> every sample balances, and the solver
  returns the last sampled speed. That speed is not the bound \<open>30\<close>: after 299
  additions of \<open>0.1\<close> the loop variable is \<open>2154522061734056448 / 2^56\<close>
  (29.900000000000155...), the next addition gives a value above \<open>30\<close>
  (lemma \<open>tick_300\<close>), and \<open>30\<close> is never sampled.
\<close>

theorem topSpeed_no_drag_stops_short:
  "\<exists>r. topSpeed i 0 0 = Some r \<and> mps r = 2154522061734056448 / 2 ^ 56 \<and>
       299 / 10 < mps r \<and> mps r < 30 \<and> sampled (mps r) \<and> \<not> sampled 30"
proof -
  have "topSpeed i 0 0 =
     Some \<lparr> mps = tick 299,
            kn = tick 299 * 1.943844,
            driveN = - Outputs.driveN (compute (i\<lparr>boardSpeed := tick 299\<rparr>)),
            waterDragN = 0 + 0 * tick 299 * tick 299 \<rparr>"
    unfolding topSpeed_result no_drag_best ..
  moreover have "sampled (tick 299)" by (rule sampled_tick) simp
  moreover have "299 / 10 < tick 299" "tick 299 < 30" by (simp_all add: tick_299)
  ultimately show ?thesis using tick_299 sampled_not_30 by simp
qed

text \<open>
  C10. The drive force the solver returns is the raw \<open>- driveN\<close> of \<open>compute\<close> at the
  returned speed, without the clamp \<open>max 0\<close> of the loop; whenever no sampled speed
  balances and \<open>driveN\<close> at board speed \<open>0\<close> is positive, the returned speed is \<open>0\<close>
  and the returned drive force is strictly negative.
\<close>

theorem topSpeed_drive_unclamped:
  "\<exists>r. topSpeed i c0 c2 = Some r \<and>
       TopSpeed.driveN r = - Outputs.driveN (compute (i\<lparr>boardSpeed := mps r\<rparr>)) \<and>
       ((\<forall>V. sampled V \<longrightarrow>
            max 0 (- Outputs.driveN (compute (i\<lparr>boardSpeed := V\<rparr>))) < c0 + c2 * V * V) \<and>
        0 < Outputs.driveN (compute (i\<lparr>boardSpeed := 0\<rparr>))
        \<longrightarrow> mps r = 0 \<and> TopSpeed.driveN r < 0)"
proof -
  obtain r where r: "topSpeed i c0 c2 = Some r"
    and d: "TopSpeed.driveN r = - Outputs.driveN (compute (i\<lparr>boardSpeed := mps r\<rparr>))"
    by (simp add: topSpeed_result)
  have "mps r = 0 \<and> TopSpeed.driveN r < 0"
    if u: "\<forall>V. sampled V \<longrightarrow>
        max 0 (- Outputs.driveN (compute (i\<lparr>boardSpeed := V\<rparr>))) < c0 + c2 * V * V"
      and p: "0 < Outputs.driveN (compute (i\<lparr>boardSpeed := 0\<rparr>))"
  proof -
    have "topSpeed i c0 c2 =
        Some \<lparr> mps = 0, kn = 0,
               driveN = - Outputs.driveN (compute (i\<lparr>boardSpeed := 0\<rparr>)),
               waterDragN = c0 \<rparr>"
      using none_balanced_result [OF u] by blast
    then have "r = \<lparr> mps = 0, kn = 0,
               driveN = - Outputs.driveN (compute (i\<lparr>boardSpeed := 0\<rparr>)),
               waterDragN = c0 \<rparr>"
      using r by simp
    then show ?thesis using p by simp
  qed
  then show ?thesis using r d by blast
qed

text \<open>C10 on a dead run: such inputs exist, and the returned drive force is negative.\<close>

theorem topSpeed_drive_unclamped_witness:
  "\<exists>r. topSpeed \<lparr>trueWindSpeed = 12, courseAngleDeg = 0, boardSpeed = 8, sailArea = 7,
         sheetingDeg = 20, downhaul = 0.4, outhaul = 0.3\<rparr> 30 1.2 = Some r \<and>
       TopSpeed.driveN r = - Outputs.driveN (compute (\<lparr>trueWindSpeed = 12, courseAngleDeg = 0,
         boardSpeed = 8, sailArea = 7, sheetingDeg = 20, downhaul = 0.4,
         outhaul = 0.3\<rparr>\<lparr>boardSpeed := mps r\<rparr>)) \<and>
       mps r = 0 \<and> TopSpeed.driveN r < 0"
proof -
  define i where "i = \<lparr>trueWindSpeed = 12, courseAngleDeg = 0, boardSpeed = 8, sailArea = 7,
      sheetingDeg = 20, downhaul = 0.4, outhaul = 0.3\<rparr>"
  have u: "\<forall>V. sampled V \<longrightarrow>
      max 0 (- Outputs.driveN (compute (i\<lparr>boardSpeed := V\<rparr>))) < 30 + 1.2 * V * V"
    by (intro allI impI dead_run_unbalanced) (simp_all add: i_def)
  have p: "0 < Outputs.driveN (compute (i\<lparr>boardSpeed := 0\<rparr>))"
    by (rule dead_run_drive_pos) (simp_all add: i_def)
  show ?thesis
    using topSpeed_drive_unclamped [of i 30 "1.2"] u p unfolding i_def by blast
qed

end
